theory Spec2Isabelle
  imports Complex_Main "HOL-Library.Sublist"
begin

section \<open>Data model of the design search engine\<close>

text \<open>
  A row of a CSV file as \<^verbatim>\<open>csv.DictReader\<close> yields it: the header's field names in
  order, each bound to the cell's text, or to \<^verbatim>\<open>None\<close> where the line is shorter than the
  header. Keys of one row are distinct, as the keys of a dict are. Text is ASCII.
\<close>

type_synonym row = "(string \<times> string option) list"

text \<open>The text \<^verbatim>\<open>json.dumps(row)\<close>, kept symbolic: it is a function of the row only.\<close>

datatype json_text = Json_dumps row

record search_result =
  domain :: string
  content :: json_text
  metadata :: row
  score :: real

text \<open>
  What the data directory holds under a file name: nothing, a file that cannot be opened
  or parsed (\<^verbatim>\<open>open\<close> or the CSV reader raises), or a file with its rows in order.
\<close>

datatype csv_file = Missing | Unreadable | Rows "row list"

type_synonym filesystem = "string \<Rightarrow> csv_file"

text \<open>
  The exceptions that can leave the engine: the one \<^verbatim>\<open>load_domain\<close> lets through when a
  file that exists cannot be read, and the three a Python dict, list or \<^verbatim>\<open>None\<close> raises
  on a bad access.
\<close>

datatype error = LoadError | KeyError | IndexError | AttributeError

text \<open>
  The engine object. \<open>indices\<close> binds a domain to its \<^verbatim>\<open>BM25Okapi\<close> object, which is
  represented by the tokenised corpus it was built from. \<open>load_log\<close> is a ghost field:
  the domains \<^verbatim>\<open>load_domain\<close> was called with, oldest first.
\<close>

record engine =
  indices :: "string \<rightharpoonup> string list list"
  documents :: "string \<rightharpoonup> row list"
  load_log :: "string list"

text \<open>A call either raises, or returns a value; both leave an engine behind.\<close>

type_synonym 'a result = "(error \<times> engine) + ('a \<times> engine)"

definition outcome :: "'a result \<Rightarrow> error + 'a" where
  "outcome r = (case r of Inl (e, s) \<Rightarrow> Inl e | Inr (x, s) \<Rightarrow> Inr x)"

definition final :: "'a result \<Rightarrow> engine" where
  "final r = (case r of Inl (e, s) \<Rightarrow> s | Inr (x, s) \<Rightarrow> s)"

text \<open>
  Modelled from the spec: \<^verbatim>\<open>BM25Okapi\<close> is imported from the package \<^verbatim>\<open>rank_bm25\<close> and is
  not defined in the repository. Its \<^verbatim>\<open>get_scores\<close> returns one score per document of
  the corpus, in load order; the score of document \<open>i\<close> is left open as a parameter, so
  every result below holds for any scoring formula. Building the index from a corpus that
  is not empty is taken to succeed, and a score is taken to be a real number.
\<close>

type_synonym scorer = "string list list \<Rightarrow> string list \<Rightarrow> nat \<Rightarrow> real"

definition get_scores :: "scorer \<Rightarrow> string list list \<Rightarrow> string list \<Rightarrow> real list" where
  "get_scores bm corpus query_tokens = map (bm corpus query_tokens) [0..<length corpus]"

section \<open>Tokenizer\<close>

definition lower_char :: "char \<Rightarrow> char" where
  "lower_char c =
     (let n = (of_char c :: nat) in if 65 \<le> n \<and> n \<le> 90 then char_of (n + 32) else c)"

definition lower :: "string \<Rightarrow> string" where
  "lower s = map lower_char s"

definition is_space :: "char \<Rightarrow> bool" where
  "is_space c = (let n = (of_char c :: nat) in (9 \<le> n \<and> n \<le> 13) \<or> (28 \<le> n \<and> n \<le> 32))"

text \<open>\<^verbatim>\<open>str.split()\<close>: the maximal runs of characters that are not whitespace.\<close>

fun split_from :: "string \<Rightarrow> string \<Rightarrow> string list" where
  "split_from cur [] = (if cur = [] then [] else [cur])"
| "split_from cur (c # cs) =
     (if is_space c then (if cur = [] then split_from [] cs else cur # split_from [] cs)
      else split_from (cur @ [c]) cs)"

definition split :: "string \<Rightarrow> string list" where
  "split s = split_from [] s"

fun join_space :: "string list \<Rightarrow> string" where
  "join_space [] = []"
| "join_space [x] = x"
| "join_space (x # y # ys) = x @ '' '' @ join_space (y # ys)"

text \<open>\<^verbatim>\<open>[str(v) for v in doc.values() if v]\<close>: \<^verbatim>\<open>None\<close> and the empty text are dropped.\<close>

fun truthy_values :: "row \<Rightarrow> string list" where
  "truthy_values [] = []"
| "truthy_values ((k, None) # kvs) = truthy_values kvs"
| "truthy_values ((k, Some v) # kvs) = (if v = [] then truthy_values kvs else v # truthy_values kvs)"

definition tokenize_doc :: "row \<Rightarrow> string list" where
  "tokenize_doc doc = split (lower (join_space (truthy_values doc)))"

section \<open>Loading and indexing\<close>

definition domains :: "(string \<times> string) list" where
  "domains =
     [(''product'', ''products.csv''),
      (''style'', ''styles.csv''),
      (''color'', ''colors.csv''),
      (''typography'', ''typography.csv''),
      (''landing'', ''landing-pages.csv''),
      (''chart'', ''charts.csv''),
      (''ux'', ''ux-guidelines.csv'')]"

definition init :: engine where
  "init = \<lparr>indices = Map.empty, documents = Map.empty, load_log = []\<rparr>"

definition csv_name :: "string \<Rightarrow> string" where
  "csv_name d = (case map_of domains d of Some f \<Rightarrow> f | None \<Rightarrow> d @ ''.csv'')"

definition load_domain :: "filesystem \<Rightarrow> engine \<Rightarrow> string \<Rightarrow> (row list) result" where
  "load_domain fs s d =
     (let s1 = s\<lparr>load_log := load_log s @ [d]\<rparr> in
      case fs (csv_name d) of
        Missing \<Rightarrow> Inr ([], s1)
      | Unreadable \<Rightarrow> Inl (LoadError, s1)
      | Rows rs \<Rightarrow> Inr (rs, s1))"

definition build_index :: "filesystem \<Rightarrow> engine \<Rightarrow> string \<Rightarrow> unit result" where
  "build_index fs s d =
     (case load_domain fs s d of
        Inl err \<Rightarrow> Inl err
      | Inr (docs, s1) \<Rightarrow>
          if docs = [] then Inr ((), s1)
          else Inr ((), s1\<lparr>indices := (indices s1)(d \<mapsto> map tokenize_doc docs),
                           documents := (documents s1)(d \<mapsto> docs)\<rparr>))"

section \<open>Search\<close>

definition mk_result :: "string \<Rightarrow> row \<Rightarrow> real \<Rightarrow> search_result" where
  "mk_result d doc sc = \<lparr>domain = d, content = Json_dumps doc, metadata = doc, score = sc\<rparr>"

text \<open>
  The inner loop over \<^verbatim>\<open>enumerate(scores)\<close>: \<^verbatim>\<open>self.documents[d][idx]\<close> raises when the
  position is past the end of the documents.
\<close>

fun hits :: "string \<Rightarrow> row list \<Rightarrow> (nat \<times> real) list \<Rightarrow> error + search_result list" where
  "hits d docs [] = Inr []"
| "hits d docs ((idx, sc) # rest) =
     (if 0 < sc then
        (if idx < length docs then
           (case hits d docs rest of
              Inl e \<Rightarrow> Inl e
            | Inr rs \<Rightarrow> Inr (mk_result d (docs ! idx) sc # rs))
         else Inl IndexError)
      else hits d docs rest)"

definition enumerate_scores :: "real list \<Rightarrow> (nat \<times> real) list" where
  "enumerate_scores scores = zip [0..<length scores] scores"

text \<open>
  The outer loop over the domains to search, with the results collected so far. A domain
  without an index after the attempt to build one is skipped.
\<close>

fun search_loop ::
  "scorer \<Rightarrow> filesystem \<Rightarrow> string list \<Rightarrow> string list \<Rightarrow> engine \<Rightarrow> search_result list
    \<Rightarrow> (search_result list) result" where
  "search_loop bm fs query_tokens [] s results = Inr (results, s)"
| "search_loop bm fs query_tokens (d # ds) s results =
     (case (if indices s d = None then build_index fs s d else Inr ((), s)) of
        Inl err \<Rightarrow> Inl err
      | Inr (u, s1) \<Rightarrow>
          (case indices s1 d of
             None \<Rightarrow> search_loop bm fs query_tokens ds s1 results
           | Some ix \<Rightarrow>
               (case documents s1 d of
                  None \<Rightarrow> Inl (KeyError, s1)
                | Some docs \<Rightarrow>
                    if docs = [] then search_loop bm fs query_tokens ds s1 results
                    else
                      (case hits d docs (enumerate_scores (get_scores bm ix query_tokens)) of
                         Inl e \<Rightarrow> Inl (e, s1)
                       | Inr rs \<Rightarrow> search_loop bm fs query_tokens ds s1 (results @ rs)))))"

text \<open>
  \<^verbatim>\<open>[domain] if domain else self.domains.keys()\<close>: \<^verbatim>\<open>None\<close> and the empty text are both
  false, and the keys come in insertion order.
\<close>

definition domains_to_search :: "string option \<Rightarrow> string list" where
  "domains_to_search dopt =
     (case dopt of
        None \<Rightarrow> map fst domains
      | Some d \<Rightarrow> if d = [] then map fst domains else [d])"

text \<open>
  \<^verbatim>\<open>results.sort(key=lambda x: x.score, reverse=True)\<close>: Python's sort is stable, also
  with \<^verbatim>\<open>reverse=True\<close>, and a stable sort by a totally ordered key has one result; it is
  computed here by insertion.
\<close>

fun insort_desc :: "search_result \<Rightarrow> search_result list \<Rightarrow> search_result list" where
  "insort_desc x [] = [x]"
| "insort_desc x (y # ys) =
     (if score y \<le> score x then x # y # ys else y # insort_desc x ys)"

definition sort_desc :: "search_result list \<Rightarrow> search_result list" where
  "sort_desc xs = foldr insort_desc xs []"

text \<open>
  \<^verbatim>\<open>xs[:stop]\<close>: a negative stop counts from the end, and the bounds are clamped to the
  list.
\<close>

definition slice_to :: "'a list \<Rightarrow> int \<Rightarrow> 'a list" where
  "slice_to xs stop =
     (let n = int (length xs);
          j = (if stop < 0 then max 0 (n + stop) else min stop n)
      in take (nat j) xs)"

text \<open>\<^verbatim>\<open>xs[start:stop]\<close> for bounds that are not negative.\<close>

definition slice :: "'a list \<Rightarrow> nat \<Rightarrow> nat \<Rightarrow> 'a list" where
  "slice xs start stop = drop start (take stop xs)"

definition search ::
  "scorer \<Rightarrow> filesystem \<Rightarrow> engine \<Rightarrow> string \<Rightarrow> string option \<Rightarrow> int
    \<Rightarrow> (search_result list) result" where
  "search bm fs s query dopt max_results =
     (let query_tokens = split (lower query) in
      case search_loop bm fs query_tokens (domains_to_search dopt) s [] of
        Inl err \<Rightarrow> Inl err
      | Inr (results, s1) \<Rightarrow> Inr (slice_to (sort_desc results) max_results, s1))"

section \<open>Recommendation composer\<close>

record recommendations_doc =
  product :: row
  style :: row
  color_palette :: row
  typography :: row
  landing_pattern :: row
  charts :: "row list"
  ux_guidelines :: "row list"

record alternatives_doc =
  products :: "row list"
  styles :: "row list"
  colors :: "row list"
  alt_typography :: "row list"
  landing_patterns :: "row list"

record checklist_entry =
  item :: string
  rule :: string
  category :: "string option"

record design_system =
  project_name :: string
  query :: string
  recommendations :: recommendations_doc
  alternatives :: alternatives_doc
  anti_patterns :: "string list"
  checklist :: "checklist_entry list"

text \<open>\<^verbatim>\<open>s.split(sep)\<close> with a separator of one character: empty pieces are kept.\<close>

fun split_on :: "char \<Rightarrow> string \<Rightarrow> string \<Rightarrow> string list" where
  "split_on sep cur [] = [cur]"
| "split_on sep cur (c # cs) =
     (if c = sep then cur # split_on sep [] cs else split_on sep (cur @ [c]) cs)"

text \<open>
  The loop of \<^verbatim>\<open>_extract_anti_patterns\<close>. A row that has the key bound to \<^verbatim>\<open>None\<close> makes
  \<^verbatim>\<open>.split\<close> raise.
\<close>

fun collect_patterns :: "search_result list \<Rightarrow> string list \<Rightarrow> error + string list" where
  "collect_patterns [] acc = Inr acc"
| "collect_patterns (r # rs) acc =
     (case map_of (metadata r) ''anti_patterns'' of
        None \<Rightarrow> collect_patterns rs acc
      | Some None \<Rightarrow> Inl AttributeError
      | Some (Some v) \<Rightarrow> collect_patterns rs (acc @ split_on (CHR '';'') [] v))"

text \<open>
  \<^verbatim>\<open>list(set(anti_patterns))\<close> lists each distinct phrase once, in the iteration order of
  a Python set of strings. That order follows the strings' hashes, which are salted anew
  in every interpreter process, so the order is a parameter \<open>set_list\<close> of the run.
\<close>

definition set_list_ok :: "(string list \<Rightarrow> string list) \<Rightarrow> bool" where
  "set_list_ok set_list = (\<forall>xs. distinct (set_list xs) \<and> set (set_list xs) = set xs)"

definition extract_anti_patterns ::
  "(string list \<Rightarrow> string list) \<Rightarrow> search_result list \<Rightarrow> search_result list
    \<Rightarrow> error + string list" where
  "extract_anti_patterns set_list product_results style_results =
     (case collect_patterns (take 2 product_results) [] of
        Inl e \<Rightarrow> Inl e
      | Inr ps \<Rightarrow> Inr (take 5 (set_list ps)))"

text \<open>\<^verbatim>\<open>m.get(k)\<close> used as a condition: the key is there, with a text that is not empty.\<close>

definition get_truthy :: "row \<Rightarrow> string \<Rightarrow> string option" where
  "get_truthy m k =
     (case map_of m k of
        Some (Some v) \<Rightarrow> if v = [] then None else Some v
      | _ \<Rightarrow> None)"

fun checklist_loop :: "search_result list \<Rightarrow> checklist_entry list" where
  "checklist_loop [] = []"
| "checklist_loop (r # rs) =
     (case get_truthy (metadata r) ''guideline_name'' of
        None \<Rightarrow> checklist_loop rs
      | Some g \<Rightarrow>
          (case get_truthy (metadata r) ''rule'' of
             None \<Rightarrow> checklist_loop rs
           | Some ru \<Rightarrow>
               \<lparr>item = g, rule = ru,
                category = (case map_of (metadata r) ''category'' of
                              None \<Rightarrow> Some ''general'' | Some c \<Rightarrow> c)\<rparr>
               # checklist_loop rs))"

definition generate_checklist :: "search_result list \<Rightarrow> checklist_entry list" where
  "generate_checklist ux_results = checklist_loop (take 10 ux_results)"

definition first_metadata :: "search_result list \<Rightarrow> row" where
  "first_metadata rs = (case rs of [] \<Rightarrow> [] | r # _ \<Rightarrow> metadata r)"

definition compose ::
  "(string list \<Rightarrow> string list) \<Rightarrow> string \<Rightarrow> string \<Rightarrow> search_result list \<Rightarrow> search_result list
    \<Rightarrow> search_result list \<Rightarrow> search_result list \<Rightarrow> search_result list \<Rightarrow> search_result list
    \<Rightarrow> search_result list \<Rightarrow> error + design_system" where
  "compose set_list q pname product_results style_results color_results typography_results
     landing_results chart_results ux_results =
     (case extract_anti_patterns set_list product_results style_results of
        Inl e \<Rightarrow> Inl e
      | Inr aps \<Rightarrow>
          Inr \<lparr>project_name = pname,
               query = q,
               recommendations =
                 \<lparr>product = first_metadata product_results,
                  style = first_metadata style_results,
                  color_palette = first_metadata color_results,
                  typography = first_metadata typography_results,
                  landing_pattern = first_metadata landing_results,
                  charts = map metadata (take 3 chart_results),
                  ux_guidelines = map metadata (take 5 ux_results)\<rparr>,
               alternatives =
                 \<lparr>products = map metadata (slice product_results 1 3),
                  styles = map metadata (slice style_results 1 3),
                  colors = map metadata (slice color_results 1 3),
                  alt_typography = map metadata (slice typography_results 1 3),
                  landing_patterns = map metadata (slice landing_results 1 3)\<rparr>,
               anti_patterns = aps,
               checklist = generate_checklist ux_results\<rparr>)"

definition bind :: "'a result \<Rightarrow> ('a \<Rightarrow> engine \<Rightarrow> 'b result) \<Rightarrow> 'b result" where
  "bind r f = (case r of Inl err \<Rightarrow> Inl err | Inr (x, s) \<Rightarrow> f x s)"

definition design_system_generator ::
  "scorer \<Rightarrow> (string list \<Rightarrow> string list) \<Rightarrow> filesystem \<Rightarrow> engine \<Rightarrow> string \<Rightarrow> string
    \<Rightarrow> design_system result" where
  "design_system_generator bm set_list fs s q pname =
     bind (search bm fs s q (Some ''product'') 3) (\<lambda>product_results s1.
     bind (search bm fs s1 q (Some ''style'') 3) (\<lambda>style_results s2.
     bind (search bm fs s2 q (Some ''color'') 3) (\<lambda>color_results s3.
     bind (search bm fs s3 q (Some ''typography'') 3) (\<lambda>typography_results s4.
     bind (search bm fs s4 q (Some ''landing'') 3) (\<lambda>landing_results s5.
     bind (search bm fs s5 q (Some ''chart'') 5) (\<lambda>chart_results s6.
     bind (search bm fs s6 q (Some ''ux'') 5) (\<lambda>ux_results s7.
       (case compose set_list q pname product_results style_results color_results
               typography_results landing_results chart_results ux_results of
          Inl e \<Rightarrow> Inl (e, s7)
        | Inr doc \<Rightarrow> Inr (doc, s7)))))))))"

section \<open>The corpus as the files give it\<close>

text \<open>
  The engine agrees with the files: a domain that is indexed has a file with at least one
  row, its documents are those rows and its index is built from them.
\<close>

definition consistent :: "filesystem \<Rightarrow> engine \<Rightarrow> bool" where
  "consistent fs s =
     (\<forall>d ix. indices s d = Some ix \<longrightarrow>
        (\<exists>rows. fs (csv_name d) = Rows rows \<and> rows \<noteq> [] \<and> ix = map tokenize_doc rows
                \<and> documents s d = Some rows))"

definition file_rows :: "filesystem \<Rightarrow> string \<Rightarrow> row list" where
  "file_rows fs d = (case fs (csv_name d) of Rows rows \<Rightarrow> rows | _ \<Rightarrow> [])"

text \<open>
  The matches of a query in one domain, read off the file: the rows whose score is
  positive, in load order.
\<close>

definition corpus_hits :: "scorer \<Rightarrow> filesystem \<Rightarrow> string list \<Rightarrow> string \<Rightarrow> search_result list" where
  "corpus_hits bm fs query_tokens d =
     (let rows = file_rows fs d; corpus = map tokenize_doc rows in
      map (\<lambda>i. mk_result d (rows ! i) (bm corpus query_tokens i))
        (filter (\<lambda>i. 0 < bm corpus query_tokens i) [0..<length rows]))"

definition unreadable :: "filesystem \<Rightarrow> string list \<Rightarrow> bool" where
  "unreadable fs ds = list_ex (\<lambda>d. fs (csv_name d) = Unreadable) ds"

definition pool :: "scorer \<Rightarrow> filesystem \<Rightarrow> string \<Rightarrow> string option \<Rightarrow> search_result list" where
  "pool bm fs q dopt =
     concat (map (corpus_hits bm fs (split (lower q))) (domains_to_search dopt))"

text \<open>
  The number of positive-score matches of a query across the seven categories, counted on
  the files.
\<close>

definition positive_matches :: "scorer \<Rightarrow> filesystem \<Rightarrow> string \<Rightarrow> nat" where
  "positive_matches bm fs q =
     sum_list (map (\<lambda>d. length (filter (\<lambda>sc. 0 < sc)
                           (get_scores bm (map tokenize_doc (file_rows fs d)) (split (lower q)))))
                (map fst domains))"

section \<open>A small corpus for the examples\<close>

text \<open>A scorer for the examples: how many tokens of the document occur in the query.\<close>

definition count_scorer :: scorer where
  "count_scorer corpus query_tokens i =
     real (length (filter (\<lambda>t. t \<in> set query_tokens) (corpus ! i)))"

definition demo_fs :: filesystem where
  "demo_fs name =
     (if name = ''products.csv'' then
        Rows [[(''name'', Some ''Flat UI''), (''anti_patterns'', Some ''clutter;noise'')],
              [(''name'', Some ''Bold''), (''anti_patterns'', Some ''noise'')],
              [(''name'', Some ''flat Flat''), (''anti_patterns'', Some ''glare'')]]
      else if name = ''ux-guidelines.csv'' then
        Rows [[(''guideline_name'', Some ''Contrast''), (''rule'', Some ''keep it flat'')],
              [(''guideline_name'', Some ''Flat nav''), (''rule'', Some [])]]
      else Missing)"

definition broken_fs :: filesystem where
  "broken_fs name =
     (if name = ''products.csv'' then Unreadable
      else if name = ''styles.csv'' then Rows [[(''name'', Some ''Flat'')]]
      else Missing)"

definition empty_fs :: filesystem where
  "empty_fs name = Missing"


section \<open>How far a search gets\<close>

text \<open>
  The targets that a search gets to on an engine that agrees with the files: all of them
  up to and including the first whose file cannot be read, where the search raises.
\<close>

fun reached :: "filesystem \<Rightarrow> string list \<Rightarrow> string list" where
  "reached fs [] = []"
| "reached fs (d # ds) = d # (if fs (csv_name d) = Unreadable then [] else reached fs ds)"

section \<open>The inner loop and the index\<close>

lemma hits_in_range:
  "\<forall>p\<in>set es. fst p < length docs \<Longrightarrow>
   hits d docs es =
     Inr (map (\<lambda>p. mk_result d (docs ! fst p) (snd p)) (filter (\<lambda>p. 0 < snd p) es))"
  by (induction es) auto

lemma enumerate_get_scores:
  "enumerate_scores (get_scores bm corpus q) = map (\<lambda>i. (i, bm corpus q i)) [0..<length corpus]"
  unfolding enumerate_scores_def get_scores_def
  by (simp add: zip_map2 zip_same_conv_map)

lemma hits_corpus:
  assumes "fs (csv_name d) = Rows rows"
  shows "hits d rows (enumerate_scores (get_scores bm (map tokenize_doc rows) q))
           = Inr (corpus_hits bm fs q d)"
proof -
  have "\<forall>p\<in>set (enumerate_scores (get_scores bm (map tokenize_doc rows) q)). fst p < length rows"
    by (auto simp: enumerate_get_scores)
  from hits_in_range[OF this] show ?thesis
    using assms
    by (simp add: enumerate_get_scores corpus_hits_def file_rows_def filter_map o_def Let_def)
qed

lemma corpus_hits_no_rows:
  "fs (csv_name d) = Missing \<or> fs (csv_name d) = Rows [] \<Longrightarrow> corpus_hits bm fs q d = []"
  by (auto simp: corpus_hits_def file_rows_def)

lemma corpus_hits_positive: "r \<in> set (corpus_hits bm fs q d) \<Longrightarrow> 0 < score r"
  by (auto simp: corpus_hits_def Let_def mk_result_def)

lemma pool_positive: "r \<in> set (pool bm fs q dopt) \<Longrightarrow> 0 < score r"
  by (auto simp: pool_def corpus_hits_positive)

lemma consistent_init: "consistent fs init"
  by (simp add: consistent_def init_def)

lemma build_index_cases:
  "build_index fs s d =
     (case fs (csv_name d) of
        Missing \<Rightarrow> Inr ((), s\<lparr>load_log := load_log s @ [d]\<rparr>)
      | Unreadable \<Rightarrow> Inl (LoadError, s\<lparr>load_log := load_log s @ [d]\<rparr>)
      | Rows rows \<Rightarrow>
          if rows = [] then Inr ((), s\<lparr>load_log := load_log s @ [d]\<rparr>)
          else Inr ((), s\<lparr>load_log := load_log s @ [d],
                          indices := (indices s)(d \<mapsto> map tokenize_doc rows),
                          documents := (documents s)(d \<mapsto> rows)\<rparr>))"
  by (simp add: build_index_def load_domain_def Let_def split: csv_file.splits)

lemma consistent_log: "consistent fs (s\<lparr>load_log := l\<rparr>) = consistent fs s"
  by (simp add: consistent_def)

lemma consistent_add:
  "consistent fs s \<Longrightarrow> fs (csv_name d) = Rows rows \<Longrightarrow> rows \<noteq> [] \<Longrightarrow>
   consistent fs (s\<lparr>load_log := l, indices := (indices s)(d \<mapsto> map tokenize_doc rows),
                          documents := (documents s)(d \<mapsto> rows)\<rparr>)"
  by (auto simp: consistent_def)

section \<open>The search loop on an engine that agrees with the files\<close>

lemma search_loop_consistent:
  "consistent fs s \<Longrightarrow>
   outcome (search_loop bm fs q ds s acc) =
     (if unreadable fs ds then Inl LoadError
      else Inr (acc @ concat (map (corpus_hits bm fs q) ds)))
   \<and> consistent fs (final (search_loop bm fs q ds s acc))"
proof (induction ds arbitrary: s acc)
  case Nil
  then show ?case by (simp add: outcome_def final_def unreadable_def)
next
  case (Cons d ds)
  show ?case
  proof (cases "indices s d")
    case (Some ix)
    with Cons.prems obtain rows where r: "fs (csv_name d) = Rows rows" "rows \<noteq> []"
      "ix = map tokenize_doc rows" "documents s d = Some rows"
      unfolding consistent_def by blast
    show ?thesis
      using Some r Cons.IH[OF Cons.prems] hits_corpus[of fs d rows bm q]
      by (simp add: unreadable_def)
  next
    case None
    show ?thesis
    proof (cases "fs (csv_name d)")
      case Missing
      then show ?thesis
        using None Cons.IH[of "s\<lparr>load_log := load_log s @ [d]\<rparr>"] Cons.prems
        by (simp add: build_index_cases consistent_log corpus_hits_no_rows unreadable_def)
    next
      case Unreadable
      then show ?thesis
        using None Cons.prems
        by (simp add: build_index_cases consistent_log outcome_def final_def unreadable_def)
    next
      case (Rows rows)
      show ?thesis
      proof (cases "rows = []")
        case True
        then show ?thesis
          using None Rows Cons.IH[of "s\<lparr>load_log := load_log s @ [d]\<rparr>"] Cons.prems
          by (simp add: build_index_cases consistent_log corpus_hits_no_rows unreadable_def)
      next
        case False
        have c: "consistent fs (s\<lparr>load_log := load_log s @ [d],
                          indices := (indices s)(d \<mapsto> map tokenize_doc rows),
                          documents := (documents s)(d \<mapsto> rows)\<rparr>)"
          using consistent_add[OF Cons.prems Rows False] .
        show ?thesis
          using None Rows False Cons.IH[OF c] hits_corpus[of fs d rows bm q]
          by (simp add: build_index_cases unreadable_def)
      qed
    qed
  qed
qed

section \<open>Sorting and slicing\<close>

lemma set_insort_desc: "set (insort_desc x xs) = insert x (set xs)"
  by (induction xs) auto

lemma length_insort_desc: "length (insort_desc x xs) = Suc (length xs)"
  by (induction xs) auto

lemma set_sort_desc: "set (sort_desc xs) = set xs"
  unfolding sort_desc_def by (induction xs) (auto simp: set_insort_desc)

lemma length_sort_desc: "length (sort_desc xs) = length xs"
  unfolding sort_desc_def by (induction xs) (auto simp: length_insort_desc)

lemma sorted_insort_desc:
  "sorted_wrt (\<lambda>a b. score b \<le> score a) xs \<Longrightarrow>
   sorted_wrt (\<lambda>a b. score b \<le> score a) (insort_desc x xs)"
  by (induction xs) (auto simp: set_insort_desc)

lemma sorted_sort_desc: "sorted_wrt (\<lambda>a b. score b \<le> score a) (sort_desc xs)"
  unfolding sort_desc_def by (induction xs) (auto simp: sorted_insort_desc)

lemma filter_insort_desc:
  "sorted_wrt (\<lambda>a b. score b \<le> score a) xs \<Longrightarrow>
   filter (\<lambda>r. score r = v) (insort_desc x xs) =
     (if score x = v then x # filter (\<lambda>r. score r = v) xs else filter (\<lambda>r. score r = v) xs)"
  by (induction xs) auto

lemma filter_sort_desc:
  "filter (\<lambda>r. score r = v) (sort_desc xs) = filter (\<lambda>r. score r = v) xs"
proof (induction xs)
  case Nil
  then show ?case by (simp add: sort_desc_def)
next
  case (Cons x xs)
  have "sort_desc (x # xs) = insort_desc x (sort_desc xs)"
    by (simp add: sort_desc_def)
  then show ?case
    using Cons filter_insort_desc[OF sorted_sort_desc, of v x xs] by simp
qed

lemma slice_to_nonneg: "0 \<le> m \<Longrightarrow> slice_to xs m = take (nat m) xs"
  by (simp add: slice_to_def Let_def min_def)

lemma slice_to_neg: "m < 0 \<Longrightarrow> slice_to xs m = take (length xs - nat (- m)) xs"
proof -
  assume m: "m < 0"
  have "nat (max 0 (int (length xs) + m)) = length xs - nat (- m)"
    using m by (simp add: max_def) linarith
  with m show ?thesis by (simp add: slice_to_def Let_def)
qed

lemma slice_to_prefix: "prefix (slice_to xs m) xs"
  by (simp add: slice_to_def Let_def take_is_prefix)

section \<open>What a search returns\<close>

lemma outcome_case:
  "outcome (case r of Inl err \<Rightarrow> Inl err | Inr (x, s1) \<Rightarrow> Inr (f x, s1)) = map_sum id f (outcome r)"
  by (auto simp: outcome_def split: sum.splits)

lemma final_case:
  "final (case r of Inl err \<Rightarrow> Inl err | Inr (x, s1) \<Rightarrow> Inr (f x, s1)) = final r"
  by (auto simp: final_def split: sum.splits)

lemma search_outcome:
  assumes "consistent fs s"
  shows "outcome (search bm fs s q dopt m) =
           (if unreadable fs (domains_to_search dopt) then Inl LoadError
            else Inr (slice_to (sort_desc (pool bm fs q dopt)) m))"
    and "consistent fs (final (search bm fs s q dopt m))"
  using search_loop_consistent[OF assms, of bm "split (lower q)" "domains_to_search dopt" "[]"]
  by (simp_all add: search_def Let_def outcome_case final_case pool_def)

text \<open>
  C5. Whatever the query, the category filter and the cap, the results of a search are
  sorted by score, highest first; every result has a score above zero; and the results
  of one score come in the order of the pool, which lists the categories in iteration
  order and, within a category, the rows in load order.
\<close>

theorem search_sorted_positive_stable:
  assumes "consistent fs s"
    and "outcome (search bm fs s q dopt m) = Inr rs"
  shows "sorted_wrt (\<lambda>a b. score b \<le> score a) rs
       \<and> (\<forall>r\<in>set rs. 0 < score r)
       \<and> (\<forall>v. prefix (filter (\<lambda>r. score r = v) rs)
                     (filter (\<lambda>r. score r = v) (pool bm fs q dopt)))"
proof -
  let ?sorted = "sort_desc (pool bm fs q dopt)"
  have rs: "rs = slice_to ?sorted m"
    using assms search_outcome(1)[OF assms(1), of bm q dopt m]
    by (simp split: if_splits)
  have p: "prefix rs ?sorted"
    unfolding rs by (rule slice_to_prefix)
  then obtain zs where zs: "?sorted = rs @ zs"
    by (auto simp: prefix_def)
  have "sorted_wrt (\<lambda>a b. score b \<le> score a) (rs @ zs)"
    using sorted_sort_desc[of "pool bm fs q dopt"] zs by simp
  then have 1: "sorted_wrt (\<lambda>a b. score b \<le> score a) rs"
    by (simp add: sorted_wrt_append)
  have "set rs \<subseteq> set ?sorted"
    using zs by auto
  then have 2: "\<forall>r\<in>set rs. 0 < score r"
    using pool_positive[of _ bm fs q dopt] by (auto simp: set_sort_desc)
  have 3: "prefix (filter (\<lambda>r. score r = v) rs) (filter (\<lambda>r. score r = v) (pool bm fs q dopt))" for v
    using filter_mono_prefix[OF p, of "\<lambda>r. score r = v"] by (simp add: filter_sort_desc)
  from 1 2 3 show ?thesis by blast
qed

theorem search_sorted_positive_stable_witness:
  "consistent demo_fs init
   \<and> outcome (search count_scorer demo_fs init ''flat'' None 3) =
       Inr [mk_result ''product'' [(''name'', Some ''flat Flat''), (''anti_patterns'', Some ''glare'')] 2,
            mk_result ''product'' [(''name'', Some ''Flat UI''), (''anti_patterns'', Some ''clutter;noise'')] 1,
            mk_result ''ux'' [(''guideline_name'', Some ''Contrast''), (''rule'', Some ''keep it flat'')] 1]
   \<and> prefix (filter (\<lambda>r. score r = 1)
               [mk_result ''product'' [(''name'', Some ''flat Flat''), (''anti_patterns'', Some ''glare'')] 2,
                mk_result ''product'' [(''name'', Some ''Flat UI''), (''anti_patterns'', Some ''clutter;noise'')] 1,
                mk_result ''ux'' [(''guideline_name'', Some ''Contrast''), (''rule'', Some ''keep it flat'')] 1])
             (filter (\<lambda>r. score r = 1) (pool count_scorer demo_fs ''flat'' None))"
proof -
  have c: "consistent demo_fs init"
    by (rule consistent_init)
  have e: "outcome (search count_scorer demo_fs init ''flat'' None 3) =
       Inr [mk_result ''product'' [(''name'', Some ''flat Flat''), (''anti_patterns'', Some ''glare'')] 2,
            mk_result ''product'' [(''name'', Some ''Flat UI''), (''anti_patterns'', Some ''clutter;noise'')] 1,
            mk_result ''ux'' [(''guideline_name'', Some ''Contrast''), (''rule'', Some ''keep it flat'')] 1]"
    by code_simp
  from search_sorted_positive_stable[OF c e] c e show ?thesis
    by blast
qed

text \<open>
  C8, as the code has it. A negative cap \<open>m\<close> is not an error of its own and is not a cap
  of zero. When the file of a targeted category cannot be read the search raises, as it
  does for any cap. Otherwise it returns the pool of positive-score matches, sorted by
  score with the highest first and ties in pool order, without its last \<open>|m|\<close> elements;
  so with \<open>m = -1\<close> a pool of \<open>n > 0\<close> matches gives \<open>n - 1\<close> results.
\<close>

theorem search_negative_max_results:
  assumes "m < 0" and "consistent fs s"
  shows "(unreadable fs (domains_to_search dopt) \<longrightarrow>
            outcome (search bm fs s q dopt m) = Inl LoadError)
       \<and> (\<not> unreadable fs (domains_to_search dopt) \<longrightarrow>
            outcome (search bm fs s q dopt m) =
              Inr (take (length (pool bm fs q dopt) - nat (- m)) (sort_desc (pool bm fs q dopt))))
       \<and> length (take (length (pool bm fs q dopt) - nat (- m)) (sort_desc (pool bm fs q dopt)))
           = length (pool bm fs q dopt) - nat (- m)
       \<and> sorted_wrt (\<lambda>a b. score b \<le> score a) (sort_desc (pool bm fs q dopt))
       \<and> (\<forall>v. filter (\<lambda>r. score r = v) (sort_desc (pool bm fs q dopt))
                = filter (\<lambda>r. score r = v) (pool bm fs q dopt))
       \<and> (\<forall>r\<in>set (pool bm fs q dopt). 0 < score r)"
  using assms search_outcome(1)[OF assms(2), of bm q dopt m]
    sorted_sort_desc[of "pool bm fs q dopt"] pool_positive[of _ bm fs q dopt]
  by (simp add: slice_to_neg length_sort_desc filter_sort_desc)

theorem search_negative_max_results_witness:
  "(- 1 :: int) < 0 \<and> consistent demo_fs init \<and> \<not> unreadable demo_fs (domains_to_search None)
   \<and> length (pool count_scorer demo_fs ''flat'' None) = 4
   \<and> outcome (search count_scorer demo_fs init ''flat'' None (- 1)) =
       Inr [mk_result ''product'' [(''name'', Some ''flat Flat''), (''anti_patterns'', Some ''glare'')] 2,
            mk_result ''product'' [(''name'', Some ''Flat UI''), (''anti_patterns'', Some ''clutter;noise'')] 1,
            mk_result ''ux'' [(''guideline_name'', Some ''Contrast''), (''rule'', Some ''keep it flat'')] 1]"
proof -
  have m: "(- 1 :: int) < 0" by simp
  have c: "consistent demo_fs init"
    by (rule consistent_init)
  have u: "\<not> unreadable demo_fs (domains_to_search None)"
    by code_simp
  have n: "length (pool count_scorer demo_fs ''flat'' None) = 4"
    by code_simp
  have v: "take (4 - nat (- (- 1))) (sort_desc (pool count_scorer demo_fs ''flat'' None)) =
       [mk_result ''product'' [(''name'', Some ''flat Flat''), (''anti_patterns'', Some ''glare'')] 2,
        mk_result ''product'' [(''name'', Some ''Flat UI''), (''anti_patterns'', Some ''clutter;noise'')] 1,
        mk_result ''ux'' [(''guideline_name'', Some ''Contrast''), (''rule'', Some ''keep it flat'')] 1]"
    by code_simp
  from search_negative_max_results[OF m c, of None count_scorer "''flat''"] u n v
  have "outcome (search count_scorer demo_fs init ''flat'' None (- 1)) =
       Inr [mk_result ''product'' [(''name'', Some ''flat Flat''), (''anti_patterns'', Some ''glare'')] 2,
            mk_result ''product'' [(''name'', Some ''Flat UI''), (''anti_patterns'', Some ''clutter;noise'')] 1,
            mk_result ''ux'' [(''guideline_name'', Some ''Contrast''), (''rule'', Some ''keep it flat'')] 1]"
    by simp
  with m c u n show ?thesis by blast
qed

text \<open>
  C8 as stated fails: with an unreadable product file, the search over all categories with
  cap \<open>-1\<close> raises.
\<close>

theorem negative_cap_raises_counterexample:
  "outcome (search count_scorer broken_fs init ''flat'' None (- 1)) = Inl LoadError"
  by code_simp

lemma unreadable_iff: "unreadable fs ds = (\<exists>d\<in>set ds. fs (csv_name d) = Unreadable)"
  by (simp add: unreadable_def list_ex_iff)

section \<open>Files that cannot be read\<close>

text \<open>
  C3, as the code has it. Nothing in the engine catches an exception of the loader. When
  the file of a category that the search targets cannot be read, the error reaches the
  caller and no results are returned, in a search over all categories as in a search
  filtered to that category.
\<close>

theorem search_load_error_propagates:
  assumes "consistent fs s"
    and "d \<in> set (domains_to_search dopt)"
    and "fs (csv_name d) = Unreadable"
  shows "outcome (search bm fs s q dopt m) = Inl LoadError"
  using assms search_outcome(1)[OF assms(1), of bm q dopt m]
  by (auto simp: unreadable_iff)

theorem search_load_error_propagates_witness:
  "consistent broken_fs init \<and> ''product'' \<in> set (domains_to_search None)
   \<and> broken_fs (csv_name ''product'') = Unreadable
   \<and> outcome (search count_scorer broken_fs init ''flat'' None 10) = Inl LoadError"
proof -
  have c: "consistent broken_fs init" by (rule consistent_init)
  have d: "''product'' \<in> set (domains_to_search None)" by code_simp
  have u: "broken_fs (csv_name ''product'') = Unreadable" by code_simp
  from search_load_error_propagates[OF c d u] c d u show ?thesis by blast
qed

text \<open>
  C3 as stated fails: with an unreadable product file, the search over all categories
  raises, although the style category alone has a match for the query.
\<close>

theorem unfiltered_search_aborts_counterexample:
  "outcome (search count_scorer broken_fs init ''flat'' None 10) = Inl LoadError
   \<and> outcome (search count_scorer broken_fs init ''flat'' (Some ''style'') 10) =
       Inr [mk_result ''style'' [(''name'', Some ''Flat'')] 1]"
  by code_simp

section \<open>What is cached\<close>

text \<open>
  C4 as stated fails: with no product file, two searches of the product category call the
  loader for it twice.
\<close>

theorem loader_called_again_counterexample:
  "load_log (final (search count_scorer empty_fs
       (final (search count_scorer empty_fs init ''flat'' (Some ''product'') 10))
       ''flat'' (Some ''product'') 10)) = [''product'', ''product'']"
  by code_simp

lemma consistent_no_index:
  "consistent fs s \<Longrightarrow> fs (csv_name d) = Missing \<or> fs (csv_name d) = Rows [] \<Longrightarrow> indices s d = None"
proof (cases "indices s d")
  case None
  then show ?thesis .
next
  case (Some ix)
  assume c: "consistent fs s" and e: "fs (csv_name d) = Missing \<or> fs (csv_name d) = Rows []"
  from c Some obtain rows where "fs (csv_name d) = Rows rows" "rows \<noteq> []"
    unfolding consistent_def by blast
  with e show ?thesis by auto
qed

lemma reached_all: "\<not> unreadable fs ds \<Longrightarrow> reached fs ds = ds"
  by (induction ds) (auto simp: unreadable_def)

lemma reached_prefix: "prefix (reached fs ds) ds"
  by (induction ds) auto

lemma distinct_reached: "distinct ds \<Longrightarrow> distinct (reached fs ds)"
proof -
  assume d: "distinct ds"
  obtain zs where "ds = reached fs ds @ zs"
    using reached_prefix[of fs ds] by (auto simp: prefix_def)
  with d have "distinct (reached fs ds @ zs)" by simp
  then show ?thesis by simp
qed

lemma search_loop_reached:
  "consistent fs s \<Longrightarrow> fs (csv_name d) = Missing \<or> fs (csv_name d) = Rows [] \<Longrightarrow>
   count_list (load_log (final (search_loop bm fs q ds s acc))) d =
     count_list (load_log s) d + count_list (reached fs ds) d"
proof (induction ds arbitrary: s acc)
  case Nil
  then show ?case by (simp add: final_def)
next
  case (Cons d' ds)
  note e = Cons.prems(2)
  show ?case
  proof (cases "indices s d'")
    case (Some ix)
    with Cons.prems(1) obtain rows where r: "fs (csv_name d') = Rows rows" "rows \<noteq> []"
      "ix = map tokenize_doc rows" "documents s d' = Some rows"
      unfolding consistent_def by blast
    from r e have ne: "d' \<noteq> d" by auto
    show ?thesis
      using Some r ne Cons.IH[OF Cons.prems(1) e] hits_corpus[of fs d' rows bm q]
      by simp
  next
    case None
    show ?thesis
    proof (cases "fs (csv_name d')")
      case Missing
      have c: "consistent fs (s\<lparr>load_log := load_log s @ [d']\<rparr>)"
        using Cons.prems(1) by (simp add: consistent_log)
      show ?thesis
        using None Missing Cons.IH[OF c e, of acc]
        by (simp add: build_index_cases)
    next
      case Unreadable
      with e have ne: "d' \<noteq> d" by auto
      show ?thesis
        using None Unreadable ne by (simp add: build_index_cases final_def)
    next
      case (Rows rows)
      show ?thesis
      proof (cases "rows = []")
        case True
        have c: "consistent fs (s\<lparr>load_log := load_log s @ [d']\<rparr>)"
          using Cons.prems(1) by (simp add: consistent_log)
        show ?thesis
          using None Rows True Cons.IH[OF c e, of acc]
          by (simp add: build_index_cases)
      next
        case False
        with Rows e have ne: "d' \<noteq> d" by auto
        have c: "consistent fs (s\<lparr>load_log := load_log s @ [d'],
                          indices := (indices s)(d' \<mapsto> map tokenize_doc rows),
                          documents := (documents s)(d' \<mapsto> rows)\<rparr>)"
          using consistent_add[OF Cons.prems(1) Rows False] .
        show ?thesis
          using None Rows False ne Cons.IH[OF c e] hits_corpus[of fs d' rows bm q]
          by (simp add: build_index_cases)
      qed
    qed
  qed
qed

lemma distinct_domains_to_search: "distinct (domains_to_search dopt)"
  by (simp add: domains_to_search_def domains_def split: option.splits)

lemma count_list_distinct: "distinct xs \<Longrightarrow> count_list xs x = (if x \<in> set xs then 1 else 0)"
  by (induction xs) auto

lemma final_search:
  "final (search bm fs s q dopt m) = final (search_loop bm fs (split (lower q)) (domains_to_search dopt) s [])"
  by (simp add: search_def Let_def final_case)

text \<open>
  C4, as the code has it. Only an index with at least one document is stored. For a
  category whose file is missing or has no rows nothing is cached: every search leaves it
  without an index, and every search that gets to it calls the loader for it once more.
  A search gets to each targeted category, unless the file of a category before it in
  iteration order cannot be read, where the search raises; so every search that targets
  the category and returns loads it again.
\<close>

theorem empty_category_loaded_on_every_search:
  assumes "consistent fs s"
    and "fs (csv_name d) = Missing \<or> fs (csv_name d) = Rows []"
  shows "count_list (load_log (final (search bm fs s q dopt m))) d =
           count_list (load_log s) d
             + (if d \<in> set (reached fs (domains_to_search dopt)) then 1 else 0)
       \<and> (d \<in> set (domains_to_search dopt) \<and> \<not> unreadable fs (domains_to_search dopt) \<longrightarrow>
            count_list (load_log (final (search bm fs s q dopt m))) d
              = Suc (count_list (load_log s) d))
       \<and> indices (final (search bm fs s q dopt m)) d = None
       \<and> consistent fs (final (search bm fs s q dopt m))"
proof -
  let ?T = "domains_to_search dopt"
  have c: "consistent fs (final (search bm fs s q dopt m))"
    by (rule search_outcome(2)[OF assms(1)])
  have n: "indices (final (search bm fs s q dopt m)) d = None"
    by (rule consistent_no_index[OF c assms(2)])
  have k: "count_list (reached fs ?T) d = (if d \<in> set (reached fs ?T) then 1 else 0)"
    by (rule count_list_distinct[OF distinct_reached[OF distinct_domains_to_search]])
  have 1: "count_list (load_log (final (search bm fs s q dopt m))) d =
           count_list (load_log s) d + (if d \<in> set (reached fs ?T) then 1 else 0)"
    using search_loop_reached[OF assms, of bm "split (lower q)" ?T "[]"] k
    by (simp add: final_search)
  have 2: "count_list (load_log (final (search bm fs s q dopt m))) d = Suc (count_list (load_log s) d)"
    if "d \<in> set ?T" "\<not> unreadable fs ?T"
    using 1 that reached_all[of fs ?T] by simp
  from 1 2 n c show ?thesis by blast
qed

theorem empty_category_loaded_on_every_search_witness:
  "consistent empty_fs init
   \<and> (empty_fs (csv_name ''product'') = Missing \<or> empty_fs (csv_name ''product'') = Rows [])
   \<and> count_list (load_log (final (search count_scorer empty_fs init ''flat'' (Some ''product'') 10))) ''product''
       = Suc (count_list (load_log init) ''product'')
   \<and> consistent broken_fs init
   \<and> (broken_fs (csv_name ''ux'') = Missing \<or> broken_fs (csv_name ''ux'') = Rows [])
   \<and> count_list (load_log (final (search count_scorer broken_fs init ''flat'' None 10))) ''ux''
       = count_list (load_log init) ''ux''"
proof -
  have c: "consistent empty_fs init" by (rule consistent_init)
  have f: "empty_fs (csv_name ''product'') = Missing \<or> empty_fs (csv_name ''product'') = Rows []"
    by (simp add: empty_fs_def)
  have r: "''product'' \<in> set (reached empty_fs (domains_to_search (Some ''product'')))"
    by code_simp
  have c': "consistent broken_fs init" by (rule consistent_init)
  have f': "broken_fs (csv_name ''ux'') = Missing \<or> broken_fs (csv_name ''ux'') = Rows []"
    by code_simp
  have r': "''ux'' \<notin> set (reached broken_fs (domains_to_search None))"
    by code_simp
  from empty_category_loaded_on_every_search[OF c f, of count_scorer "''flat''" "Some ''product''" 10]
    empty_category_loaded_on_every_search[OF c' f', of count_scorer "''flat''" None 10]
    c f r c' f' r'
  show ?thesis by simp
qed

lemma length_corpus_hits:
  "length (corpus_hits bm fs q d) =
     length (filter (\<lambda>sc. 0 < sc) (get_scores bm (map tokenize_doc (file_rows fs d)) q))"
  by (simp add: corpus_hits_def Let_def get_scores_def filter_map o_def)

lemma length_pool_unfiltered: "length (pool bm fs q None) = positive_matches bm fs q"
  by (simp add: pool_def positive_matches_def domains_to_search_def length_concat o_def
      length_corpus_hits)

section \<open>The result cap\<close>

text \<open>
  C6, for a cap that is not negative. A search over all categories with cap \<open>k \<ge> 0\<close>
  returns the first \<open>k\<close> of the sorted pool: at most \<open>k\<close> results, and as many as there are
  positive-score matches across the categories when that number is at most \<open>k\<close>.
\<close>

theorem unfiltered_search_cap:
  assumes "0 \<le> k"
    and "consistent fs s"
    and "\<not> unreadable fs (domains_to_search None)"
  shows "outcome (search bm fs s q None k) = Inr (take (nat k) (sort_desc (pool bm fs q None)))
       \<and> length (take (nat k) (sort_desc (pool bm fs q None))) \<le> nat k
       \<and> (positive_matches bm fs q \<le> nat k \<longrightarrow>
            length (take (nat k) (sort_desc (pool bm fs q None))) = positive_matches bm fs q)"
  using assms search_outcome(1)[OF assms(2), of bm q None k]
  by (simp add: slice_to_nonneg length_sort_desc length_pool_unfiltered)

theorem unfiltered_search_cap_witness:
  "(0::int) \<le> 10 \<and> consistent demo_fs init \<and> \<not> unreadable demo_fs (domains_to_search None)
   \<and> positive_matches count_scorer demo_fs ''flat'' = 4
   \<and> outcome (search count_scorer demo_fs init ''flat'' None 10) =
       Inr (take (nat 10) (sort_desc (pool count_scorer demo_fs ''flat'' None)))
   \<and> length (take (nat 10) (sort_desc (pool count_scorer demo_fs ''flat'' None))) = 4"
proof -
  have k: "(0::int) \<le> 10" by simp
  have c: "consistent demo_fs init" by (rule consistent_init)
  have u: "\<not> unreadable demo_fs (domains_to_search None)" by code_simp
  have n: "positive_matches count_scorer demo_fs ''flat'' = 4" by code_simp
  from unfiltered_search_cap[OF k c u, of count_scorer "''flat''"] k c u n show ?thesis
    by simp
qed

text \<open>
  C6 as stated fails for a negative cap: with \<open>k = -1\<close> and four matches the search
  returns three results, which is more than \<open>k\<close>.
\<close>

theorem negative_cap_counterexample:
  "outcome (search count_scorer demo_fs init ''flat'' None (- 1)) =
       Inr [mk_result ''product'' [(''name'', Some ''flat Flat''), (''anti_patterns'', Some ''glare'')] 2,
            mk_result ''product'' [(''name'', Some ''Flat UI''), (''anti_patterns'', Some ''clutter;noise'')] 1,
            mk_result ''ux'' [(''guideline_name'', Some ''Contrast''), (''rule'', Some ''keep it flat'')] 1]
   \<and> \<not> int (length
        [mk_result ''product'' [(''name'', Some ''flat Flat''), (''anti_patterns'', Some ''glare'')] 2,
         mk_result ''product'' [(''name'', Some ''Flat UI''), (''anti_patterns'', Some ''clutter;noise'')] 1,
         mk_result ''ux'' [(''guideline_name'', Some ''Contrast''), (''rule'', Some ''keep it flat'')] 1])
        \<le> - 1"
  by code_simp




section \<open>A domain outside the seven categories\<close>







section \<open>The composer\<close>

lemma bindE:
  assumes "bind r f = Inr y"
  obtains x s where "r = Inr (x, s)" and "f x s = Inr y"
  using assms by (auto simp: bind_def split: sum.splits)

lemma search_length:
  "search bm fs s q dopt m = Inr (rs, s') \<Longrightarrow> 0 \<le> m \<Longrightarrow> length rs \<le> nat m"
  by (auto simp: search_def Let_def slice_to_nonneg split: sum.splits)

lemma length_checklist_loop: "length (checklist_loop rs) \<le> length rs"
  by (induction rs) (auto split: option.splits)

lemma checklist_loop_fields:
  "e \<in> set (checklist_loop rs) \<Longrightarrow>
   \<exists>r\<in>set rs. get_truthy (metadata r) ''guideline_name'' = Some (item e)
            \<and> get_truthy (metadata r) ''rule'' = Some (rule e)"
  by (induction rs) (auto split: option.splits)

lemma compose_checklist:
  assumes "compose set_list q pname pr sr cr tr lr chr ux = Inr doc" and "length ux \<le> 5"
  shows "checklist doc = checklist_loop ux"
    and "ux_guidelines (recommendations doc) = map metadata ux"
  using assms by (auto simp: compose_def generate_checklist_def split: sum.splits)

lemma generator_returns:
  assumes "design_system_generator bm set_list fs s q pname = Inr (doc, s')"
  obtains pr sr cr tr lr chr ux s6 s7 where "search bm fs s6 q (Some ''ux'') 5 = Inr (ux, s7)"
    and "compose set_list q pname pr sr cr tr lr chr ux = Inr doc"
  using assms unfolding design_system_generator_def
  by (elim bindE) (auto split: sum.splits)

text \<open>
  C10. Whatever the query and the project name, the checklist of a generated design
  system has at most 5 entries, because the ux search is capped at 5 results and the scan
  of the first 10 of them sees no more; and every entry comes from a ux result whose
  \<^verbatim>\<open>guideline_name\<close> and \<^verbatim>\<open>rule\<close> are both present and not empty.
\<close>

theorem checklist_at_most_five:
  assumes "outcome (design_system_generator bm set_list fs s q pname) = Inr doc"
  shows "length (checklist doc) \<le> 5
       \<and> (\<forall>e\<in>set (checklist doc). \<exists>r\<in>set (ux_guidelines (recommendations doc)).
            get_truthy r ''guideline_name'' = Some (item e) \<and> get_truthy r ''rule'' = Some (rule e))"
proof -
  from assms obtain s' where "design_system_generator bm set_list fs s q pname = Inr (doc, s')"
    by (auto simp: outcome_def split: sum.splits)
  then obtain pr sr cr tr lr chr ux s6 s7
    where u: "search bm fs s6 q (Some ''ux'') 5 = Inr (ux, s7)"
      and c: "compose set_list q pname pr sr cr tr lr chr ux = Inr doc"
    by (rule generator_returns)
  from search_length[OF u] have l: "length ux \<le> 5" by simp
  have 1: "length (checklist doc) \<le> 5"
    using compose_checklist(1)[OF c l] length_checklist_loop[of ux] l by simp
  have 2: "\<exists>r\<in>set (ux_guidelines (recommendations doc)).
            get_truthy r ''guideline_name'' = Some (item e) \<and> get_truthy r ''rule'' = Some (rule e)"
    if "e \<in> set (checklist doc)" for e
    using that compose_checklist[OF c l] checklist_loop_fields[of e ux] by auto
  from 1 2 show ?thesis by blast
qed

theorem checklist_at_most_five_witness:
  "outcome (design_system_generator count_scorer remdups demo_fs init ''flat'' ''Acme'')
     = Inr (projr (outcome (design_system_generator count_scorer remdups demo_fs init ''flat'' ''Acme'')))
   \<and> checklist (projr (outcome (design_system_generator count_scorer remdups demo_fs init ''flat'' ''Acme'')))
     = [\<lparr>item = ''Contrast'', rule = ''keep it flat'', category = Some ''general''\<rparr>]
   \<and> length (checklist (projr (outcome (design_system_generator count_scorer remdups demo_fs init ''flat'' ''Acme'')))) \<le> 5"
proof -
  have r: "\<not> isl (outcome (design_system_generator count_scorer remdups demo_fs init ''flat'' ''Acme''))"
    by code_simp
  then have h: "outcome (design_system_generator count_scorer remdups demo_fs init ''flat'' ''Acme'')
     = Inr (projr (outcome (design_system_generator count_scorer remdups demo_fs init ''flat'' ''Acme'')))"
    by (cases "outcome (design_system_generator count_scorer remdups demo_fs init ''flat'' ''Acme'')") auto
  have c: "checklist (projr (outcome (design_system_generator count_scorer remdups demo_fs init ''flat'' ''Acme'')))
     = [\<lparr>item = ''Contrast'', rule = ''keep it flat'', category = Some ''general''\<rparr>]"
    by code_simp
  from checklist_at_most_five[OF h] h c show ?thesis by blast
qed

section \<open>Repeated runs of the generator\<close>

lemma search_cases:
  assumes "consistent fs s"
  shows "(\<exists>s'. search bm fs s q dopt m = Inl (LoadError, s') \<and> consistent fs s'
              \<and> unreadable fs (domains_to_search dopt))
       \<or> (\<exists>s'. search bm fs s q dopt m = Inr (slice_to (sort_desc (pool bm fs q dopt)) m, s')
              \<and> consistent fs s' \<and> \<not> unreadable fs (domains_to_search dopt))"
proof (cases "search bm fs s q dopt m")
  case (Inl a)
  then show ?thesis
    using search_outcome[OF assms, of bm q dopt m]
    by (cases a) (auto simp: outcome_def final_def split: if_splits)
next
  case (Inr b)
  then show ?thesis
    using search_outcome[OF assms, of bm q dopt m]
    by (cases b) (auto simp: outcome_def final_def split: if_splits)
qed

lemma bind_search_rel:
  assumes "consistent fs s1" and "consistent fs s2"
    and "\<And>rs t1 t2. consistent fs t1 \<Longrightarrow> consistent fs t2 \<Longrightarrow>
           rel_sum (=) R (outcome (f rs t1)) (outcome (g rs t2))"
  shows "rel_sum (=) R (outcome (bind (search bm fs s1 q dopt m) f))
                       (outcome (bind (search bm fs s2 q dopt m) g))"
  using search_cases[OF assms(1), of bm q dopt m] search_cases[OF assms(2), of bm q dopt m]
    assms(3)
  by (auto simp: bind_def outcome_def)

lemma bind_search_consistent:
  assumes "consistent fs s"
    and "\<And>rs t. consistent fs t \<Longrightarrow> consistent fs (final (f rs t))"
  shows "consistent fs (final (bind (search bm fs s q dopt m) f))"
  using search_cases[OF assms(1), of bm q dopt m] assms(2)
  by (auto simp: bind_def final_def)

lemma outcome_lift:
  "outcome (case c of Inl e \<Rightarrow> Inl (e, s) | Inr d \<Rightarrow> Inr (d, s)) = c"
  by (auto simp: outcome_def split: sum.splits)

lemma final_lift:
  "final (case c of Inl e \<Rightarrow> Inl (e, s) | Inr d \<Rightarrow> Inr (d, s)) = s"
  by (auto simp: final_def split: sum.splits)

lemma generator_rel:
  assumes "consistent fs s1" and "consistent fs s2"
    and "\<And>pr sr cr tr lr chr ux.
           rel_sum (=) R (compose h1 q p pr sr cr tr lr chr ux) (compose h2 q p pr sr cr tr lr chr ux)"
  shows "rel_sum (=) R (outcome (design_system_generator bm h1 fs s1 q p))
                       (outcome (design_system_generator bm h2 fs s2 q p))"
  unfolding design_system_generator_def
  apply (rule bind_search_rel[OF assms(1,2)])
  apply (rule bind_search_rel, assumption, assumption)
  apply (rule bind_search_rel, assumption, assumption)
  apply (rule bind_search_rel, assumption, assumption)
  apply (rule bind_search_rel, assumption, assumption)
  apply (rule bind_search_rel, assumption, assumption)
  apply (rule bind_search_rel, assumption, assumption)
  apply (simp only: outcome_lift assms(3))
  done

lemma generator_consistent:
  assumes "consistent fs s"
  shows "consistent fs (final (design_system_generator bm h fs s q p))"
  unfolding design_system_generator_def
  apply (rule bind_search_consistent[OF assms])
  apply (rule bind_search_consistent, assumption)
  apply (rule bind_search_consistent, assumption)
  apply (rule bind_search_consistent, assumption)
  apply (rule bind_search_consistent, assumption)
  apply (rule bind_search_consistent, assumption)
  apply (rule bind_search_consistent, assumption)
  apply (simp only: final_lift)
  done

lemma compose_same_order:
  "rel_sum (=) (=) (compose h q p pr sr cr tr lr chr ux) (compose h q p pr sr cr tr lr chr ux)"
  by (simp add: sum.rel_eq)

lemma compose_other_order:
  "rel_sum (=) (\<lambda>d1 d2. d1\<lparr>anti_patterns := []\<rparr> = d2\<lparr>anti_patterns := []\<rparr>)
     (compose h1 q p pr sr cr tr lr chr ux) (compose h2 q p pr sr cr tr lr chr ux)"
  by (auto simp: compose_def extract_anti_patterns_def split: sum.splits)

lemma set_list_ok_length: "set_list_ok h1 \<Longrightarrow> set_list_ok h2 \<Longrightarrow> length (h1 xs) = length (h2 xs)"
  by (metis set_list_ok_def distinct_card)

lemma compose_other_order_length:
  assumes "set_list_ok h1" and "set_list_ok h2"
  shows "rel_sum (=) (\<lambda>d1 d2. length (anti_patterns d1) = length (anti_patterns d2))
     (compose h1 q p pr sr cr tr lr chr ux) (compose h2 q p pr sr cr tr lr chr ux)"
  using set_list_ok_length[OF assms]
  by (auto simp: compose_def extract_anti_patterns_def split: sum.splits)

lemma rel_sum_map:
  "rel_sum (=) R x y \<Longrightarrow> (\<And>a b. R a b \<Longrightarrow> F a = F b) \<Longrightarrow> map_sum id F x = map_sum id F y"
  by (cases x; cases y) auto

lemma set_list_ok_remdups: "set_list_ok remdups"
  by (simp add: set_list_ok_def)

lemma set_list_ok_rev_remdups: "set_list_ok (rev \<circ> remdups)"
  by (simp add: set_list_ok_def)

text \<open>
  C2, as the code has it. With the files fixed and the iteration order of Python sets
  fixed, the generator returns the same document (or raises the same error) from every
  engine that agrees with the files, so also when it runs again on the engine a run has
  left. Under another iteration order only \<open>anti_patterns\<close> can differ, and it keeps its
  length.
\<close>

theorem generator_deterministic_up_to_set_order:
  assumes "consistent fs s1" and "consistent fs s2"
  shows "outcome (design_system_generator bm h fs s1 q p)
           = outcome (design_system_generator bm h fs s2 q p)
       \<and> consistent fs (final (design_system_generator bm h fs s1 q p))
       \<and> map_sum id (\<lambda>d. d\<lparr>anti_patterns := []\<rparr>) (outcome (design_system_generator bm h1 fs s1 q p))
           = map_sum id (\<lambda>d. d\<lparr>anti_patterns := []\<rparr>) (outcome (design_system_generator bm h2 fs s2 q p))
       \<and> (set_list_ok h1 \<and> set_list_ok h2 \<longrightarrow>
            map_sum id (\<lambda>d. length (anti_patterns d)) (outcome (design_system_generator bm h1 fs s1 q p))
              = map_sum id (\<lambda>d. length (anti_patterns d)) (outcome (design_system_generator bm h2 fs s2 q p)))"
proof -
  have 1: "outcome (design_system_generator bm h fs s1 q p)
           = outcome (design_system_generator bm h fs s2 q p)"
    using generator_rel[OF assms, of "(=)" h q p h bm, OF compose_same_order]
    by (simp add: sum.rel_eq)
  have 2: "map_sum id (\<lambda>d. d\<lparr>anti_patterns := []\<rparr>) (outcome (design_system_generator bm h1 fs s1 q p))
           = map_sum id (\<lambda>d. d\<lparr>anti_patterns := []\<rparr>) (outcome (design_system_generator bm h2 fs s2 q p))"
    by (rule rel_sum_map[OF generator_rel[OF assms, of _ h1 q p h2 bm, OF compose_other_order]])
  have 3: "map_sum id (\<lambda>d. length (anti_patterns d)) (outcome (design_system_generator bm h1 fs s1 q p))
              = map_sum id (\<lambda>d. length (anti_patterns d)) (outcome (design_system_generator bm h2 fs s2 q p))"
    if ok: "set_list_ok h1" "set_list_ok h2"
    by (rule rel_sum_map[OF generator_rel[OF assms, of _ h1 q p h2 bm, OF compose_other_order_length[OF ok]]])
  from 1 2 3 generator_consistent[OF assms(1), of bm h q p] show ?thesis by blast
qed

theorem generator_deterministic_up_to_set_order_witness:
  "consistent demo_fs init
   \<and> consistent demo_fs (final (design_system_generator count_scorer remdups demo_fs init ''flat'' ''Acme''))
   \<and> outcome (design_system_generator count_scorer remdups demo_fs init ''flat'' ''Acme'')
       = outcome (design_system_generator count_scorer remdups demo_fs
           (final (design_system_generator count_scorer remdups demo_fs init ''flat'' ''Acme''))
           ''flat'' ''Acme'')
   \<and> set_list_ok remdups \<and> set_list_ok (rev \<circ> remdups)
   \<and> map_sum id (\<lambda>d. length (anti_patterns d))
         (outcome (design_system_generator count_scorer remdups demo_fs init ''flat'' ''Acme''))
       = map_sum id (\<lambda>d. length (anti_patterns d))
         (outcome (design_system_generator count_scorer (rev \<circ> remdups) demo_fs
           (final (design_system_generator count_scorer remdups demo_fs init ''flat'' ''Acme''))
           ''flat'' ''Acme''))"
proof -
  have c1: "consistent demo_fs init"
    by (rule consistent_init)
  have c2: "consistent demo_fs (final (design_system_generator count_scorer remdups demo_fs init ''flat'' ''Acme''))"
    by (rule generator_consistent[OF c1])
  from generator_deterministic_up_to_set_order[OF c1 c2, of count_scorer remdups "''flat''" "''Acme''"
      remdups "rev \<circ> remdups"]
    c1 c2 set_list_ok_remdups set_list_ok_rev_remdups
  show ?thesis by blast
qed

text \<open>
  C2 as stated fails: on the same files, two iteration orders of the set of phrases give
  two documents that differ in the order of \<open>anti_patterns\<close>.
\<close>

theorem anti_patterns_order_counterexample:
  "anti_patterns (projr (outcome (design_system_generator count_scorer remdups demo_fs init ''flat'' ''Acme'')))
     = [''glare'', ''clutter'', ''noise'']
   \<and> anti_patterns (projr (outcome (design_system_generator count_scorer (rev \<circ> remdups) demo_fs init ''flat'' ''Acme'')))
     = [''noise'', ''clutter'', ''glare'']
   \<and> outcome (design_system_generator count_scorer remdups demo_fs init ''flat'' ''Acme'')
     \<noteq> outcome (design_system_generator count_scorer (rev \<circ> remdups) demo_fs init ''flat'' ''Acme'')"
  by code_simp

end
